theory Spec2Isabelle
  imports Complex_Main "HOL-Library.AList" "HOL-Library.Extended_Nat" "HOL-Library.Stream"
begin

section \<open>JavaScript objects used as dictionaries\<close>

text \<open>
  The program keeps its graph and its failure flags in plain objects (\<^verbatim>\<open>{}\<close>) used as
  dictionaries from strings to values. Such an object is modelled as an association
  list in the order in which \<^verbatim>\<open>for (const k in obj)\<close> enumerates the keys, which for the
  router labels of this program is the order of first assignment. Assigning to an
  existing key keeps its place, assigning to a new key appends it: that is
  \<^const>\<open>AList.update\<close>. Reading a key is \<^const>\<open>map_of\<close>, where \<^term>\<open>None\<close> stands for
  \<^verbatim>\<open>undefined\<close>.

  Vertex identifiers are strings such as \<^verbatim>\<open>Router-7\<close> or \<^verbatim>\<open>a\<close>; identifiers that
  look like array indices or that name a property of \<^verbatim>\<open>Object.prototype\<close> are outside
  the model.
\<close>

type_synonym vertex = string

type_synonym 'v js_object = "(string \<times> 'v) list"

definition hasOwnProperty :: "'v js_object \<Rightarrow> string \<Rightarrow> bool" where
  "hasOwnProperty obj k = (map_of obj k \<noteq> None)"

text \<open>Truthiness of a boolean flag read from an object: \<^verbatim>\<open>undefined\<close> is falsy.\<close>

definition truthy :: "bool option \<Rightarrow> bool" where
  "truthy b = (b = Some True)"

datatype error = TypeError

section \<open>graph.js: class Graph\<close>

text \<open>
  An adjacency entry \<^verbatim>\<open>{vertex: des, cost: cost}\<close>. The costs of the topology table are
  small positive integers, on which the arithmetic of JavaScript numbers is exact; a
  cost is a natural number here, and a distance a natural number or \<^verbatim>\<open>Infinity\<close>.
\<close>

record edge =
  vertex :: vertex
  cost :: nat

type_synonym graph = "edge list js_object"

definition addVertex :: "graph \<Rightarrow> vertex \<Rightarrow> graph" where
  "addVertex g v = (if \<not> hasOwnProperty g v then AList.update v [] g else g)"

text \<open>\<^verbatim>\<open>this.graph[k].push(e)\<close> for a key that is present.\<close>

definition push :: "graph \<Rightarrow> vertex \<Rightarrow> edge \<Rightarrow> graph" where
  "push g k e = AList.map_entry k (\<lambda>es. es @ [e]) g"

definition addEdge :: "graph \<Rightarrow> vertex \<Rightarrow> vertex \<Rightarrow> nat \<Rightarrow> graph" where
  "addEdge g src des c =
     (if hasOwnProperty g src \<and> hasOwnProperty g des
      then push (push g src \<lparr>vertex = des, cost = c\<rparr>) des \<lparr>vertex = src, cost = c\<rparr>
      else g)"

definition getNeighbors :: "graph \<Rightarrow> vertex \<Rightarrow> edge list" where
  "getNeighbors g v = (case map_of g v of Some es \<Rightarrow> es | None \<Rightarrow> [])"

section \<open>network.js: class Network\<close>

text \<open>
  The class exists in two revisions: network.js, and a later one that adds the fields
  \<open>nodeFailureProbability\<close> and \<open>linkFailureProbability\<close>, the reset button and the
  probability button. The later one is modelled. \<^verbatim>\<open>findShortestPath\<close> is the same text in
  both. Where the later revision reads one of the two probability fields, the earlier
  one has a literal (0.1 for a new link), and its \<^verbatim>\<open>visualizeNetwork\<close> does not search for a
  path.

  The fields of the class. The page (log area, buttons, the drawing) is not part of the
  state. The field \<open>random\<close> is the sequence of numbers that the following calls of
  \<^verbatim>\<open>Math.random()\<close> return, each in the interval from 0 (inclusive) to 1 (exclusive); a
  call takes the head and leaves the tail.
\<close>

record Network =
  networkGraph :: graph
  nodeFailures :: "bool js_object"
  linkFailures :: "bool js_object"
  isPaused :: bool
  nodeFailureProbability :: real
  linkFailureProbability :: real
  random :: "real stream"

text \<open>The template string \<^verbatim>\<open>`${from}-${to}`\<close>.\<close>

definition linkKey :: "vertex \<Rightarrow> vertex \<Rightarrow> string" where
  "linkKey from to = from @ ''-'' @ to"

text \<open>
  \<^verbatim>\<open>addEdgeWithFailure(from, to, cost)\<close>. Reading \<^verbatim>\<open>graph[from].some\<close> for an unknown
  vertex throws; the second operand of \<^verbatim>\<open>||\<close> is only evaluated when the first is false.
\<close>

definition addEdgeWithFailure :: "Network \<Rightarrow> vertex \<Rightarrow> vertex \<Rightarrow> nat \<Rightarrow> error + Network" where
  "addEdgeWithFailure net from to c =
     (case map_of (networkGraph net) from of
        None \<Rightarrow> Inl TypeError
      | Some fs \<Rightarrow>
          if list_ex (\<lambda>e. vertex e = to) fs then Inr net
          else (case map_of (networkGraph net) to of
                  None \<Rightarrow> Inl TypeError
                | Some ts \<Rightarrow>
                    if list_ex (\<lambda>e. vertex e = from) ts then Inr net
                    else Inr (net\<lparr>networkGraph := addEdge (networkGraph net) from to c,
                                  linkFailures := AList.update (linkKey from to)
                                    (shd (random net) < linkFailureProbability net) (linkFailures net),
                                  random := stl (random net)\<rparr>)))"

subsection \<open>findShortestPath\<close>

text \<open>
  \<open>distances\<close> maps a vertex to a number or \<^verbatim>\<open>Infinity\<close>; \<open>previous\<close> maps a vertex to a
  vertex or \<^verbatim>\<open>null\<close> (\<^term>\<open>Some None\<close>). In both, \<^term>\<open>None\<close> is \<^verbatim>\<open>undefined\<close>. The queue is a
  \<^verbatim>\<open>Set\<close>, enumerated in insertion order.
\<close>

type_synonym distances = "vertex \<rightharpoonup> enat"
type_synonym previous = "vertex \<rightharpoonup> vertex option"

definition set_add :: "vertex list \<Rightarrow> vertex \<Rightarrow> vertex list" where
  "set_add q x = (if x \<in> set q then q else q @ [x])"

text \<open>The comparison \<^verbatim>\<open><\<close> on numbers; with \<^verbatim>\<open>undefined\<close> on either side it is false.\<close>

definition js_less :: "enat option \<Rightarrow> enat option \<Rightarrow> bool" where
  "js_less a b = (case a of None \<Rightarrow> False
                  | Some x \<Rightarrow> (case b of None \<Rightarrow> False | Some y \<Rightarrow> x < y))"

text \<open>The first loop: every vertex gets distance \<^verbatim>\<open>Infinity\<close>, predecessor \<^verbatim>\<open>null\<close>, and
  enters the queue.\<close>

fun init_loop :: "vertex list \<Rightarrow> distances \<times> previous \<times> vertex list
    \<Rightarrow> distances \<times> previous \<times> vertex list" where
  "init_loop [] s = s"
| "init_loop (node # nodes) (d, p, q) =
     init_loop nodes (d(node \<mapsto> \<infinity>), p(node \<mapsto> None), set_add q node)"

text \<open>\<^verbatim>\<open>queue.forEach\<close> with the running \<open>minNode\<close> (\<^term>\<open>None\<close> is \<^verbatim>\<open>null\<close>).\<close>

fun select_min :: "distances \<Rightarrow> vertex option \<Rightarrow> vertex list \<Rightarrow> vertex option" where
  "select_min d minNode [] = minNode"
| "select_min d minNode (node # nodes) =
     select_min d
       (case minNode of
          None \<Rightarrow> Some node
        | Some m \<Rightarrow> if js_less (d node) (d m) then Some node else Some m)
       nodes"

text \<open>The loop over the adjacency entries of \<open>minNode\<close>.\<close>

fun relax :: "bool js_object \<Rightarrow> bool js_object \<Rightarrow> vertex \<Rightarrow> edge list
    \<Rightarrow> distances \<times> previous \<Rightarrow> distances \<times> previous" where
  "relax nf lf minNode [] (d, p) = (d, p)"
| "relax nf lf minNode (e # es) (d, p) =
     (let neighbor = vertex e in
      if truthy (map_of nf neighbor) \<or> truthy (map_of lf (linkKey minNode neighbor))
      then relax nf lf minNode es (d, p)
      else (case d minNode of
              None \<Rightarrow> relax nf lf minNode es (d, p)
            | Some dm \<Rightarrow>
                let newDist = dm + enat (cost e) in
                if js_less (Some newDist) (d neighbor)
                then relax nf lf minNode es (d(neighbor \<mapsto> newDist), p(neighbor \<mapsto> Some minNode))
                else relax nf lf minNode es (d, p)))"

text \<open>The \<^verbatim>\<open>while (queue.size > 0)\<close> loop. It ends because every round deletes a member
  of the queue.\<close>

function while_loop :: "graph \<Rightarrow> bool js_object \<Rightarrow> bool js_object
    \<Rightarrow> distances \<times> previous \<times> vertex list \<Rightarrow> error + distances \<times> previous" where
  "while_loop g nf lf (d, p, q) =
     (if q = [] then Inr (d, p)
      else (case select_min d None q of
              None \<Rightarrow> Inl TypeError
            | Some minNode \<Rightarrow>
                if d minNode = Some \<infinity> then Inr (d, p)
                else (case map_of g minNode of
                        None \<Rightarrow> Inl TypeError
                      | Some es \<Rightarrow>
                          (case relax nf lf minNode es (d, p) of
                             (d', p') \<Rightarrow> while_loop g nf lf (d', p', removeAll minNode q)))))"
  by pat_completeness auto
termination
proof (relation "measure (\<lambda>(g, nf, lf, d, p, q). length q)")
  show "wf (measure (\<lambda>(g, nf, lf, d, p, q). length q))" by simp
next
  fix g :: graph and nf lf :: "bool js_object" and d :: distances and p :: previous
    and q :: "vertex list" and minNode es r d' p'
  assume sel: "select_min d None q = Some minNode"
  have "x \<in> set q \<or> m = Some x" if "select_min d m q = Some x" for m x
    using that by (induction q arbitrary: m) (auto split: option.splits if_splits)
  from this[OF sel] have "minNode \<in> set q" by simp
  then have "length (removeAll minNode q) < length q"
    by (simp add: length_removeAll_less)
  then show "((g, nf, lf, d', p', removeAll minNode q), (g, nf, lf, d, p, q))
      \<in> measure (\<lambda>(g, nf, lf, d, p, q). length q)" by simp
qed

declare while_loop.simps [simp del]

text \<open>
  The reconstruction \<^verbatim>\<open>while (currentNode) { path.unshift(currentNode); currentNode =
  previous[currentNode]; }\<close>. The current node is falsy when it is \<^verbatim>\<open>null\<close>, \<^verbatim>\<open>undefined\<close>
  (both \<^term>\<open>None\<close>) or the empty string. Nothing in the loop itself bounds the walk, so
  the result is \<^term>\<open>None\<close> when it does not end.
\<close>

partial_function (option) walk :: "previous \<Rightarrow> vertex option \<Rightarrow> vertex list \<Rightarrow> vertex list option" where
  "walk previous currentNode path =
     (case currentNode of
        None \<Rightarrow> Some path
      | Some c \<Rightarrow>
          if c = [] then Some path
          else walk previous (case previous c of None \<Rightarrow> None | Some n \<Rightarrow> n) (c # path))"

text \<open>
  The first half of \<^verbatim>\<open>findShortestPath(start, end)\<close>: the tables \<open>distances\<close> and
  \<open>previous\<close> on leaving the while loop, or the exception thrown there.
\<close>

definition shortestPathTables :: "Network \<Rightarrow> vertex \<Rightarrow> error + distances \<times> previous" where
  "shortestPathTables net start =
     (case init_loop (map fst (networkGraph net)) (Map.empty, Map.empty, []) of
        (distances, previous, queue) \<Rightarrow>
          while_loop (networkGraph net) (nodeFailures net) (linkFailures net)
            (distances(start \<mapsto> 0), previous, queue))"

text \<open>
  \<^verbatim>\<open>findShortestPath(start, end)\<close>: \<^term>\<open>None\<close> if the call does not return, otherwise the
  exception thrown or the value returned, where the value \<^term>\<open>None\<close> is \<^verbatim>\<open>null\<close>.
\<close>

definition findShortestPath :: "Network \<Rightarrow> vertex \<Rightarrow> vertex \<Rightarrow> (error + vertex list option) option" where
  "findShortestPath net start end =
     (case shortestPathTables net start of
        Inl e \<Rightarrow> Some (Inl e)
      | Inr (distances, previous) \<Rightarrow>
          (case walk previous (Some end) [] of
             None \<Rightarrow> None
           | Some path \<Rightarrow> Some (Inr (if length path > 1 then Some path else None))))"

subsection \<open>The page and the timer\<close>

text \<open>
  \<^verbatim>\<open>visualizeNetwork()\<close> computes the path from Router-1 to Router-20 and draws the
  graph. Drawing and logging change no field; what is left of the function is whether
  it returns.
\<close>

definition visualizeNetwork :: "Network \<Rightarrow> (error + unit) option" where
  "visualizeNetwork net =
     (case findShortestPath net ''Router-1'' ''Router-20'' of
        None \<Rightarrow> None
      | Some (Inl e) \<Rightarrow> Some (Inl e)
      | Some (Inr path) \<Rightarrow> Some (Inr ()))"

text \<open>The loops \<^verbatim>\<open>for (const k in flags) flags[k] = false\<close> of \<^verbatim>\<open>resetNetwork()\<close>.\<close>

fun reset_loop :: "string list \<Rightarrow> bool js_object \<Rightarrow> bool js_object" where
  "reset_loop [] flags = flags"
| "reset_loop (k # ks) flags = reset_loop ks (AList.update k False flags)"

definition resetNetwork :: "Network \<Rightarrow> (error + Network) option" where
  "resetNetwork net =
     (let net1 = net\<lparr>nodeFailures := reset_loop (map fst (nodeFailures net)) (nodeFailures net)\<rparr>;
          net2 = net1\<lparr>linkFailures := reset_loop (map fst (linkFailures net1)) (linkFailures net1)\<rparr>
      in case visualizeNetwork net2 of
           None \<Rightarrow> None
         | Some (Inl e) \<Rightarrow> Some (Inl e)
         | Some (Inr u) \<Rightarrow> Some (Inr net2))"

text \<open>
  The click handler installed by \<^verbatim>\<open>setupProbabilityButton()\<close>. Its arguments are the
  results of \<^verbatim>\<open>parseFloat\<close> on the two number fields: a number, or \<^verbatim>\<open>NaN\<close> (\<^term>\<open>None\<close>)
  for which every comparison is false.
\<close>

definition js_ge :: "real option \<Rightarrow> real \<Rightarrow> bool" where
  "js_ge a b = (case a of None \<Rightarrow> False | Some x \<Rightarrow> x \<ge> b)"

definition js_le :: "real option \<Rightarrow> real \<Rightarrow> bool" where
  "js_le a b = (case a of None \<Rightarrow> False | Some x \<Rightarrow> x \<le> b)"

definition setProbabilities :: "Network \<Rightarrow> real option \<Rightarrow> real option \<Rightarrow> Network" where
  "setProbabilities net nodeProbInput linkProbInput =
     (if js_ge nodeProbInput 0 \<and> js_le nodeProbInput 1 \<and> js_ge linkProbInput 0 \<and> js_le linkProbInput 1
      then (case nodeProbInput of
              None \<Rightarrow> net
            | Some n \<Rightarrow> (case linkProbInput of
                 None \<Rightarrow> net
               | Some l \<Rightarrow> net\<lparr>nodeFailureProbability := n, linkFailureProbability := l\<rparr>))
      else net)"

text \<open>
  The loop shared by \<^verbatim>\<open>checkNodeFailures()\<close> and \<^verbatim>\<open>checkLinkFailures()\<close>: for every key,
  one call of \<^verbatim>\<open>Math.random()\<close>, and the flag is negated when the number is below the
  probability.
\<close>

fun check_loop :: "real \<Rightarrow> string list \<Rightarrow> bool js_object \<times> real stream
    \<Rightarrow> bool js_object \<times> real stream" where
  "check_loop pr [] s = s"
| "check_loop pr (k # ks) (flags, rs) =
     check_loop pr ks
       (if shd rs < pr then AList.update k (\<not> truthy (map_of flags k)) flags else flags, stl rs)"

definition checkNodeFailures :: "Network \<Rightarrow> Network" where
  "checkNodeFailures net =
     (case check_loop (nodeFailureProbability net) (map fst (nodeFailures net))
             (nodeFailures net, random net) of
        (flags, rs) \<Rightarrow> net\<lparr>nodeFailures := flags, random := rs\<rparr>)"

definition checkLinkFailures :: "Network \<Rightarrow> Network" where
  "checkLinkFailures net =
     (case check_loop (linkFailureProbability net) (map fst (linkFailures net))
             (linkFailures net, random net) of
        (flags, rs) \<Rightarrow> net\<lparr>linkFailures := flags, random := rs\<rparr>)"

text \<open>
  The callback that \<^verbatim>\<open>startSimulation()\<close> hands to \<^verbatim>\<open>setInterval\<close>: one tick of the
  simulation.
\<close>

definition simulationTick :: "Network \<Rightarrow> (error + Network) option" where
  "simulationTick net =
     (if \<not> isPaused net then
        (let net1 = checkNodeFailures net;
             net2 = checkLinkFailures net1
         in case findShortestPath net2 ''Router-1'' ''Router-20'' of
              None \<Rightarrow> None
            | Some (Inl e) \<Rightarrow> Some (Inl e)
            | Some (Inr path) \<Rightarrow>
                (case visualizeNetwork net2 of
                   None \<Rightarrow> None
                 | Some (Inl e) \<Rightarrow> Some (Inl e)
                 | Some (Inr u) \<Rightarrow> Some (Inr net2)))
      else Some (Inr net))"

text \<open>A number of ticks in a row, stopping at the first that throws or does not return.\<close>

fun ticks :: "nat \<Rightarrow> Network \<Rightarrow> (error + Network) option" where
  "ticks 0 net = Some (Inr net)"
| "ticks (Suc n) net =
     (case simulationTick net of
        None \<Rightarrow> None
      | Some (Inl e) \<Rightarrow> Some (Inl e)
      | Some (Inr net') \<Rightarrow> ticks n net')"

subsection \<open>The graph of \<^verbatim>\<open>test()\<close> in graph.js\<close>

definition test_graph :: graph where
  "test_graph =
     addEdge (addEdge (addEdge (addVertex (addVertex (addVertex [] ''a'') ''b'') ''c'')
       ''a'' ''b'' 3) ''a'' ''c'' 2) ''b'' ''c'' 4"

text \<open>A network over that graph with every failure flag false; the other fields are
  those of \<open>net\<close>.\<close>

definition three_routers :: "Network \<Rightarrow> Network" where
  "three_routers net =
     net\<lparr>networkGraph := test_graph,
         nodeFailures := [(''a'', False), (''b'', False), (''c'', False)],
         linkFailures := [(linkKey ''a'' ''b'', False), (linkKey ''a'' ''c'', False),
                          (linkKey ''b'' ''c'', False)]\<rparr>"

text \<open>The fields as the constructor sets them (with its default probabilities) before it
  calls \<^verbatim>\<open>initializeRouters()\<close>, on a page where \<^verbatim>\<open>Math.random()\<close> keeps returning one half.\<close>

definition constructed :: Network where
  "constructed =
     \<lparr>networkGraph = [], nodeFailures = [], linkFailures = [], isPaused = False,
      nodeFailureProbability = 2 / 10, linkFailureProbability = 1 / 10,
      random = sconst (1 / 2)\<rparr>"

text \<open>Two routers and no link; the next call of \<^verbatim>\<open>Math.random()\<close> returns 0.\<close>

definition two_routers :: Network where
  "two_routers =
     constructed\<lparr>networkGraph := addVertex (addVertex [] ''a'') ''b'',
                  nodeFailures := [(''a'', False), (''b'', False)],
                  random := 0 ## sconst (1 / 2)\<rparr>"

text \<open>The two routers after \<^verbatim>\<open>addEdgeWithFailure('a', 'b', 3)\<close>: the draw 0 is below the
  link failure probability, so the link starts down.\<close>

definition two_routers_linked :: Network where
  "two_routers_linked =
     two_routers\<lparr>networkGraph := [(''a'', [\<lparr>vertex = ''b'', cost = 3\<rparr>]),
                                   (''b'', [\<lparr>vertex = ''a'', cost = 3\<rparr>])],
                  linkFailures := [(linkKey ''a'' ''b'', True)],
                  random := sconst (1 / 2)\<rparr>"

text \<open>The three routers with b down and both probabilities zero.\<close>

definition quiet :: Network where
  "quiet =
     (three_routers constructed)\<lparr>nodeFailures := [(''a'', False), (''b'', True), (''c'', False)],
                                  nodeFailureProbability := 0, linkFailureProbability := 0\<rparr>"

subsection \<open>Invariants of the while loop\<close>

text \<open>
  \<open>ranked\<close>: the vertices that left the queue can be numbered so that every predecessor
  link leads to a smaller number, and no link leads into the queue.
  \<open>settled\<close>: every queued vertex has a distance, no vertex outside the queue is farther
  than one inside, and the links are ranked.
  \<open>visit\<close>: what the loop over the adjacency entries of \<open>mn\<close>, whose distance is \<open>dm\<close>,
  may have changed.
\<close>

definition ranked :: "previous \<Rightarrow> vertex list \<Rightarrow> bool" where
  "ranked p q = (\<exists>(r :: vertex \<Rightarrow> nat) K. (\<forall>v. v \<notin> set q \<longrightarrow> r v < K) \<and> (\<forall>u\<in>set q. r u = K) \<and>
       (\<forall>x y. p x = Some (Some y) \<longrightarrow> r y < r x))"

definition settled :: "distances \<Rightarrow> previous \<Rightarrow> vertex list \<Rightarrow> bool" where
  "settled d p q = ((\<forall>u\<in>set q. d u \<noteq> None) \<and>
     (\<forall>v u dv du. v \<notin> set q \<longrightarrow> u \<in> set q \<longrightarrow> d v = Some dv \<longrightarrow> d u = Some du \<longrightarrow> dv \<le> du) \<and>
     ranked p q)"

definition visit :: "distances \<Rightarrow> previous \<Rightarrow> vertex list \<Rightarrow> vertex \<Rightarrow> enat \<Rightarrow> distances \<Rightarrow> previous \<Rightarrow> bool" where
  "visit d p q mn dm d1 p1 =
     (d1 mn = Some dm \<and>
      (\<forall>v. v \<notin> set q \<or> v = mn \<longrightarrow> d1 v = d v \<and> p1 v = p v) \<and>
      (\<forall>u. (d1 u = None) = (d u = None)) \<and>
      (\<forall>u du. d1 u = Some du \<longrightarrow> d u = Some du \<or> dm \<le> du) \<and>
      (\<forall>x. p1 x = p x \<or> p1 x = Some (Some mn) \<and> x \<in> set q \<and> x \<noteq> mn))"

section \<open>Facts about the loops of findShortestPath\<close>

lemma walk_None: "walk p None path = Some path"
  by (simp add: walk.simps)

lemma walk_empty: "walk p (Some []) path = Some path"
  by (simp add: walk.simps)

lemma walk_step:
  "c \<noteq> [] \<Longrightarrow> walk p (Some c) path = walk p (case p c of None \<Rightarrow> None | Some n \<Rightarrow> n) (c # path)"
  by (subst walk.simps) simp

lemma select_min_mem:
  "select_min d m q = Some x \<Longrightarrow> x \<in> set q \<or> m = Some x"
  by (induction q arbitrary: m) (auto split: option.splits if_splits)

lemma select_min_None: "select_min d m q = None \<longleftrightarrow> m = None \<and> q = []"
  by (induction q arbitrary: m) (auto split: option.splits)

text \<open>An invariant of the loop over the adjacency entries: it has to survive one
  relaxation.\<close>

lemma relax_rule:
  assumes "I d p"
    and "\<And>d p e dm. I d p \<Longrightarrow> e \<in> set es \<Longrightarrow> \<not> truthy (map_of nf (vertex e)) \<Longrightarrow>
           \<not> truthy (map_of lf (linkKey mn (vertex e))) \<Longrightarrow> d mn = Some dm \<Longrightarrow>
           js_less (Some (dm + enat (cost e))) (d (vertex e)) \<Longrightarrow>
           I (d(vertex e \<mapsto> dm + enat (cost e))) (p(vertex e \<mapsto> Some mn))"
  shows "case relax nf lf mn es (d, p) of (d1, p1) \<Rightarrow> I d1 p1"
  using assms
proof (induction es arbitrary: d p)
  case Nil
  then show ?case by simp
next
  case (Cons e es)
  have step: "\<And>d p. I d p \<Longrightarrow> (case relax nf lf mn es (d, p) of (d1, p1) \<Rightarrow> I d1 p1)"
    using Cons.IH Cons.prems(2) by simp
  show ?case
  proof (cases "truthy (map_of nf (vertex e)) \<or> truthy (map_of lf (linkKey mn (vertex e)))")
    case True
    then show ?thesis using step[OF Cons.prems(1)] by (auto simp: Let_def)
  next
    case False
    note up = this
    show ?thesis
    proof (cases "d mn")
      case None
      with up show ?thesis using step[OF Cons.prems(1)] by (simp add: Let_def)
    next
      case (Some dm)
      show ?thesis
      proof (cases "js_less (Some (dm + enat (cost e))) (d (vertex e))")
        case True
        have "I (d(vertex e \<mapsto> dm + enat (cost e))) (p(vertex e \<mapsto> Some mn))"
        proof (rule Cons.prems(2)[OF Cons.prems(1) _ _ _ Some True])
          show "e \<in> set (e # es)" by simp
          show "\<not> truthy (map_of nf (vertex e))" using up by simp
          show "\<not> truthy (map_of lf (linkKey mn (vertex e)))" using up by simp
        qed
        from step[OF this] show ?thesis using up Some True by (simp add: Let_def)
      next
        case False
        with up Some show ?thesis using step[OF Cons.prems(1)] by (simp add: Let_def)
      qed
    qed
  qed
qed

text \<open>An invariant of the while loop: it has to survive one round.\<close>

lemma while_loop_rule:
  assumes "while_loop g nf lf (d, p, q) = Inr (d', p')"
    and "I d p q"
    and "\<And>d p q mn es d1 p1. I d p q \<Longrightarrow> select_min d None q = Some mn \<Longrightarrow> d mn \<noteq> Some \<infinity> \<Longrightarrow>
           map_of g mn = Some es \<Longrightarrow> relax nf lf mn es (d, p) = (d1, p1) \<Longrightarrow> I d1 p1 (removeAll mn q)"
  shows "\<exists>q'. I d' p' q'"
  using assms
proof (induction g nf lf "(d, p, q)" arbitrary: d p q rule: while_loop.induct)
  case (1 g nf lf d p q)
  show ?case
  proof (cases "q = []")
    case True
    with "1.prems" show ?thesis by (auto simp: while_loop.simps)
  next
    case False
    note ne = this
    show ?thesis
    proof (cases "select_min d None q")
      case None
      with ne "1.prems" show ?thesis by (simp add: while_loop.simps)
    next
      case (Some mn)
      note sel = this
      show ?thesis
      proof (cases "d mn = Some \<infinity>")
        case True
        with ne sel "1.prems" show ?thesis by (auto simp: while_loop.simps)
      next
        case False
        note fin = this
        show ?thesis
        proof (cases "map_of g mn")
          case None
          with ne sel fin "1.prems" show ?thesis by (simp add: while_loop.simps)
        next
          case (Some es)
          obtain d1 p1 where r: "relax nf lf mn es (d, p) = (d1, p1)"
            by (cases "relax nf lf mn es (d, p)")
          have w: "while_loop g nf lf (d1, p1, removeAll mn q) = Inr (d', p')"
            using "1.prems"(1) ne sel fin Some r by (simp add: while_loop.simps)
          have i: "I d1 p1 (removeAll mn q)"
            using "1.prems"(3)[OF "1.prems"(2) sel fin Some r] .
          show ?thesis
            using "1.hyps"[OF ne sel fin Some r[symmetric] w i "1.prems"(3)] .
        qed
      qed
    qed
  qed
qed

lemma init_loop_tables:
  "init_loop ks (d, p, q) = (d', p', q') \<Longrightarrow>
     (\<forall>v. d' v = (if v \<in> set ks then Some \<infinity> else d v)) \<and>
     (\<forall>v. p' v = (if v \<in> set ks then Some None else p v)) \<and>
     set q' = set q \<union> set ks"
  by (induction ks arbitrary: d p q) (auto simp: set_add_def split: if_splits)

text \<open>The while loop never reads the adjacency list of an unknown vertex.\<close>

lemma while_loop_returns:
  "set q \<subseteq> dom (map_of g) \<Longrightarrow> \<exists>d' p'. while_loop g nf lf (d, p, q) = Inr (d', p')"
proof (induction g nf lf "(d, p, q)" arbitrary: d p q rule: while_loop.induct)
  case (1 g nf lf d p q)
  show ?case
  proof (cases "q = []")
    case True
    then show ?thesis by (simp add: while_loop.simps)
  next
    case False
    then obtain mn where sel: "select_min d None q = Some mn"
      using select_min_None[of d None q] by (cases "select_min d None q") auto
    then have "mn \<in> set q" using select_min_mem by fastforce
    then obtain es where es: "map_of g mn = Some es" using "1.prems" by auto
    show ?thesis
    proof (cases "d mn = Some \<infinity>")
      case True
      with False sel show ?thesis by (simp add: while_loop.simps)
    next
      case fin: False
      obtain d1 p1 where r: "relax nf lf mn es (d, p) = (d1, p1)"
        by (cases "relax nf lf mn es (d, p)")
      have "set (removeAll mn q) \<subseteq> dom (map_of g)" using "1.prems" by auto
      from "1.hyps"[OF False sel fin es r[symmetric] this]
      show ?thesis using False sel fin es r by (simp add: while_loop.simps)
    qed
  qed
qed

lemma shortestPathTables_returns:
  "\<exists>d p. shortestPathTables net start = Inr (d, p)"
proof -
  obtain d0 p0 q0
    where i: "init_loop (map fst (networkGraph net)) (Map.empty, Map.empty, []) = (d0, p0, q0)"
    by (cases "init_loop (map fst (networkGraph net)) (Map.empty, Map.empty, [])") auto
  from init_loop_tables[OF i] have "set q0 \<subseteq> dom (map_of (networkGraph net))"
    by (simp add: dom_map_of_conv_image_fst)
  from while_loop_returns[OF this] show ?thesis
    unfolding shortestPathTables_def i by simp
qed

text \<open>An invariant of the tables: it holds when the while loop is entered and survives
  one round.\<close>

lemma shortestPathTables_rule:
  assumes "shortestPathTables net start = Inr (d', p')"
    and "\<And>d p q.
           (\<forall>v. d v = (if v = start then Some 0
                        else if v \<in> fst ` set (networkGraph net) then Some \<infinity> else None)) \<Longrightarrow>
           (\<forall>v. p v = (if v \<in> fst ` set (networkGraph net) then Some None else None)) \<Longrightarrow>
           set q = fst ` set (networkGraph net) \<Longrightarrow> I d p q"
    and "\<And>d p q mn es d1 p1. I d p q \<Longrightarrow> select_min d None q = Some mn \<Longrightarrow> d mn \<noteq> Some \<infinity> \<Longrightarrow>
           map_of (networkGraph net) mn = Some es \<Longrightarrow>
           relax (nodeFailures net) (linkFailures net) mn es (d, p) = (d1, p1) \<Longrightarrow>
           I d1 p1 (removeAll mn q)"
  shows "\<exists>q'. I d' p' q'"
proof -
  obtain d0 p0 q0
    where i: "init_loop (map fst (networkGraph net)) (Map.empty, Map.empty, []) = (d0, p0, q0)"
    by (cases "init_loop (map fst (networkGraph net)) (Map.empty, Map.empty, [])") auto
  have w: "while_loop (networkGraph net) (nodeFailures net) (linkFailures net)
             (d0(start \<mapsto> 0), p0, q0) = Inr (d', p')"
    using assms(1) unfolding shortestPathTables_def i by simp
  have i0: "I (d0(start \<mapsto> 0)) p0 q0"
    by (rule assms(2)) (use init_loop_tables[OF i] in auto)
  show ?thesis using w i0 assms(3) by (rule while_loop_rule)
qed

text \<open>The predecessor of a vertex that is down is never written, nor is that of the
  source.\<close>

lemma relax_prev_failed:
  assumes "truthy (map_of nf v)" and "relax nf lf mn es (d, p) = (d1, p1)"
  shows "p1 v = p v"
proof -
  have "case relax nf lf mn es (d, p) of (d1, p1) \<Rightarrow> p1 v = p v"
    by (rule relax_rule[where I = "\<lambda>d1 p1. p1 v = p v"]) (use assms(1) in auto)
  with assms(2) show ?thesis by simp
qed

subsection \<open>findShortestPath always returns\<close>

text \<open>
  With costs that are not negative the predecessor links written by the while loop
  cannot form a cycle, so the reconstruction ends: findShortestPath neither throws nor
  runs forever.
\<close>

lemma select_min_le:
  assumes "\<forall>u\<in>set q. d u \<noteq> None" and "d m \<noteq> None" and "select_min d (Some m) q = Some mn"
  shows "d mn \<noteq> None \<and> the (d mn) \<le> the (d m) \<and> (\<forall>u\<in>set q. the (d mn) \<le> the (d u))"
  using assms
proof (induction q arbitrary: m)
  case Nil
  then show ?case by simp
next
  case (Cons node nodes)
  let ?m' = "if js_less (d node) (d m) then node else m"
  have sel: "select_min d (Some ?m') nodes = Some mn"
    using Cons.prems(3) by (simp split: if_splits)
  have def: "d ?m' \<noteq> None" using Cons.prems(1,2) by simp
  have ih: "d mn \<noteq> None \<and> the (d mn) \<le> the (d ?m') \<and> (\<forall>u\<in>set nodes. the (d mn) \<le> the (d u))"
    using Cons.IH[OF _ def sel] Cons.prems(1) by simp
  obtain a b where ab: "d node = Some a" "d m = Some b" using Cons.prems(1,2) by auto
  have "the (d ?m') \<le> the (d m) \<and> the (d ?m') \<le> the (d node)"
    using ab by (auto simp: js_less_def)
  with ih show ?case by (auto intro: order_trans)
qed

lemma select_min_least:
  assumes "\<forall>u\<in>set q. d u \<noteq> None" and "select_min d None q = Some mn"
  shows "mn \<in> set q \<and> d mn \<noteq> None \<and> (\<forall>u\<in>set q. the (d mn) \<le> the (d u))"
proof (cases q)
  case Nil
  with assms(2) show ?thesis by simp
next
  case (Cons x xs)
  have "select_min d (Some x) xs = Some mn" using assms(2) Cons by simp
  from select_min_le[OF _ _ this] assms(1) Cons
  have "d mn \<noteq> None \<and> the (d mn) \<le> the (d x) \<and> (\<forall>u\<in>set xs. the (d mn) \<le> the (d u))" by simp
  moreover have "mn \<in> set q" using select_min_mem[OF assms(2)] by simp
  ultimately show ?thesis using Cons by simp
qed

lemma relax_visit:
  assumes "d mn = Some dm"
    and "\<forall>v dv. v \<notin> set q \<longrightarrow> d v = Some dv \<longrightarrow> dv \<le> dm"
    and "relax nf lf mn es (d, p) = (d1, p1)"
  shows "visit d p q mn dm d1 p1"
proof -
  have "case relax nf lf mn es (d, p) of (d1, p1) \<Rightarrow> visit d p q mn dm d1 p1"
  proof (rule relax_rule[where I = "visit d p q mn dm"], goal_cases)
    case 1
    show ?case using assms(1) by (simp add: visit_def)
  next
    case (2 d' p' e dm')
    have dm': "dm' = dm" using 2(1,5) by (simp add: visit_def)
    obtain dx where dx: "d' (vertex e) = Some dx" "dm + enat (cost e) < dx"
      using 2(6) dm' by (auto simp: js_less_def split: option.splits)
    have ne: "vertex e \<noteq> mn"
    proof
      assume "vertex e = mn"
      with dx 2(5) dm' have "dm + enat (cost e) < dm" by simp
      then show False by (cases dm) (auto simp: not_less)
    qed
    have inq: "vertex e \<in> set q"
    proof (rule ccontr)
      assume out: "vertex e \<notin> set q"
      with 2(1) have "d (vertex e) = Some dx" using dx by (simp add: visit_def)
      with assms(2) out have "dx \<le> dm" by blast
      with dx(2) have "dm + enat (cost e) < dm" by (rule less_le_trans)
      then show False by (cases dm) (auto simp: not_less)
    qed
    have "(d' (vertex e) = None) = (d (vertex e) = None)" using 2(1) by (simp add: visit_def)
    with dx(1) have dom: "d (vertex e) \<noteq> None" by simp
    show ?case
      unfolding visit_def
    proof (intro conjI allI impI)
      show "(d'(vertex e \<mapsto> dm' + enat (cost e))) mn = Some dm"
        using 2(1) ne by (simp add: visit_def)
    next
      fix v assume "v \<notin> set q \<or> v = mn"
      then have "v \<noteq> vertex e" using ne inq by auto
      then show "(d'(vertex e \<mapsto> dm' + enat (cost e))) v = d v"
        using 2(1) \<open>v \<notin> set q \<or> v = mn\<close> by (simp add: visit_def)
      show "(p'(vertex e \<mapsto> Some mn)) v = p v"
        using 2(1) \<open>v \<notin> set q \<or> v = mn\<close> \<open>v \<noteq> vertex e\<close> by (simp add: visit_def)
    next
      fix u
      show "((d'(vertex e \<mapsto> dm' + enat (cost e))) u = None) = (d u = None)"
        using 2(1) dom by (simp add: visit_def)
    next
      fix u du assume "(d'(vertex e \<mapsto> dm' + enat (cost e))) u = Some du"
      then show "d u = Some du \<or> dm \<le> du"
        using 2(1) dm' by (cases "u = vertex e") (auto simp: visit_def)
    next
      fix x
      show "(p'(vertex e \<mapsto> Some mn)) x = p x \<or>
            (p'(vertex e \<mapsto> Some mn)) x = Some (Some mn) \<and> x \<in> set q \<and> x \<noteq> mn"
        using 2(1) ne inq by (cases "x = vertex e") (auto simp: visit_def)
    qed
  qed
  with assms(3) show ?thesis by simp
qed


lemma settled_round:
  assumes "settled d p q" and sel: "select_min d None q = Some mn"
    and r: "relax nf lf mn es (d, p) = (d1, p1)"
  shows "settled d1 p1 (removeAll mn q)"
proof -
  from assms(1) have dom: "\<forall>u\<in>set q. d u \<noteq> None"
    and low: "\<forall>v u dv du. v \<notin> set q \<longrightarrow> u \<in> set q \<longrightarrow> d v = Some dv \<longrightarrow> d u = Some du \<longrightarrow> dv \<le> du"
    and rk: "ranked p q"
    by (auto simp: settled_def)
  from select_min_least[OF dom sel]
  have mn: "mn \<in> set q" and least: "\<forall>u\<in>set q. the (d mn) \<le> the (d u)" and "d mn \<noteq> None" by auto
  then obtain dm where dm: "d mn = Some dm" by auto
  have below: "\<forall>v dv. v \<notin> set q \<longrightarrow> d v = Some dv \<longrightarrow> dv \<le> dm"
    using low mn dm by blast
  from relax_visit[OF dm below r] have vis: "visit d p q mn dm d1 p1" .
  have d1: "\<forall>u\<in>set (removeAll mn q). d1 u \<noteq> None"
    using vis dom by (auto simp: visit_def)
  have d2: "dv \<le> du" if "v \<notin> set (removeAll mn q)" "u \<in> set (removeAll mn q)"
      "d1 v = Some dv" "d1 u = Some du" for v u dv du
  proof -
    have u: "u \<in> set q" "u \<noteq> mn" using that(2) by auto
    have "dv \<le> dm"
    proof (cases "v = mn")
      case True
      with vis that(3) show ?thesis by (simp add: visit_def)
    next
      case False
      with that(1) have "v \<notin> set q" by simp
      with vis that(3) have "d v = Some dv" by (simp add: visit_def)
      with below \<open>v \<notin> set q\<close> show ?thesis by blast
    qed
    moreover have "dm \<le> du"
    proof -
      from vis that(4) have "d u = Some du \<or> dm \<le> du" by (simp add: visit_def)
      then show ?thesis
      proof
        assume "d u = Some du"
        with least u(1) dm show ?thesis by force
      qed
    qed
    ultimately show ?thesis by (rule order_trans)
  qed
  from rk obtain r :: "vertex \<Rightarrow> nat" and K where
    r1: "\<forall>v. v \<notin> set q \<longrightarrow> r v < K" and r2: "\<forall>u\<in>set q. r u = K"
    and r3: "\<forall>x y. p x = Some (Some y) \<longrightarrow> r y < r x"
    by (auto simp: ranked_def)
  define r' where "r' v = (if v = mn then K else if v \<in> set q then Suc K else r v)" for v
  have "\<forall>v. v \<notin> set (removeAll mn q) \<longrightarrow> r' v < Suc K"
    using r1 by (auto simp: r'_def less_Suc_eq)
  moreover have "\<forall>u\<in>set (removeAll mn q). r' u = Suc K"
    by (auto simp: r'_def)
  moreover have "r' y < r' x" if "p1 x = Some (Some y)" for x y
  proof -
    from vis have "p1 x = p x \<or> p1 x = Some (Some mn) \<and> x \<in> set q \<and> x \<noteq> mn"
      by (simp add: visit_def)
    then show ?thesis
    proof
      assume "p1 x = p x"
      with that r3 have lt: "r y < r x" by simp
      have "r x \<le> K" using r1 r2 by (cases "x \<in> set q") (auto simp: less_imp_le)
      with lt have "r y < K" by simp
      with r2 have y: "y \<notin> set q" by auto
      then have ry: "r' y = r y" using mn by (auto simp: r'_def)
      show ?thesis
      proof (cases "x \<in> set q")
        case True
        then have "K \<le> r' x" by (simp add: r'_def)
        with \<open>r y < K\<close> ry show ?thesis by simp
      next
        case False
        then have "r' x = r x" using mn by (auto simp: r'_def)
        with lt ry show ?thesis by simp
      qed
    next
      assume "p1 x = Some (Some mn) \<and> x \<in> set q \<and> x \<noteq> mn"
      with that have "y = mn" "x \<in> set q" "x \<noteq> mn" by auto
      then show ?thesis by (simp add: r'_def)
    qed
  qed
  ultimately have "ranked p1 (removeAll mn q)"
    unfolding ranked_def by blast
  with d1 d2 show ?thesis unfolding settled_def by blast
qed

lemma walk_returns:
  assumes "\<forall>x y. p x = Some (Some y) \<longrightarrow> r y < (r x :: nat)"
  shows "\<exists>res. walk p cur path = Some res"
proof (cases cur)
  case None
  then show ?thesis by (simp add: walk_None)
next
  case (Some c)
  have "\<exists>res. walk p (Some c) path = Some res"
  proof (induction "r c" arbitrary: c path rule: less_induct)
    case less
    show ?case
    proof (cases "c = []")
      case True
      then show ?thesis by (simp add: walk_empty)
    next
      case False
      show ?thesis
      proof (cases "p c")
        case None
        with False show ?thesis by (simp add: walk_step walk_None)
      next
        case (Some n)
        show ?thesis
        proof (cases n)
          case None
          with Some False show ?thesis by (simp add: walk_step walk_None)
        next
          case (Some y)
          with \<open>p c = Some n\<close> assms have "r y < r c" by simp
          from less[OF this, of "c # path"] show ?thesis
            using False Some \<open>p c = Some n\<close> by (simp add: walk_step)
        qed
      qed
    qed
  qed
  with Some show ?thesis by simp
qed

lemma findShortestPath_returns:
  "\<exists>res. findShortestPath net start end = Some (Inr res)"
proof -
  obtain d p where t: "shortestPathTables net start = Inr (d, p)"
    using shortestPathTables_returns by blast
  have "\<exists>q. settled d p q"
  proof (rule shortestPathTables_rule[where I = settled, OF t], goal_cases)
    case (1 d p q)
    have "ranked p q"
      unfolding ranked_def
      by (rule exI[of _ "\<lambda>v. if v \<in> set q then 1 else 0"], rule exI[of _ 1]) (use 1 in auto)
    moreover have "\<forall>u\<in>set q. d u \<noteq> None" using 1 by auto
    moreover have "\<forall>v u dv du. v \<notin> set q \<longrightarrow> u \<in> set q \<longrightarrow> d v = Some dv \<longrightarrow> d u = Some du \<longrightarrow> dv \<le> du"
      using 1 by (auto split: if_splits)
    ultimately show ?case by (simp add: settled_def)
  next
    case (2 d p q mn es d1 p1)
    then show ?case using settled_round by blast
  qed
  then obtain q r where "\<forall>x y. p x = Some (Some y) \<longrightarrow> r y < (r x :: nat)"
    by (auto simp: settled_def ranked_def)
  from walk_returns[OF this, of "Some end" "[]"] obtain res where "walk p (Some end) [] = Some res" ..
  then show ?thesis by (simp add: findShortestPath_def t)
qed



subsection \<open>Vertices without a predecessor\<close>

lemma previous_down:
  assumes "truthy (map_of (nodeFailures net) v)" and t: "shortestPathTables net start = Inr (d, p)"
  shows "\<forall>n. p v \<noteq> Some (Some n)"
proof -
  have "\<exists>q::vertex list. \<forall>n. p v \<noteq> Some (Some n)"
  proof (rule shortestPathTables_rule[where I = "\<lambda>d p q. \<forall>n. p v \<noteq> Some (Some n)", OF t],
      goal_cases)
    case (1 d p q)
    then show ?case by simp
  next
    case (2 d p q mn es d1 p1)
    with relax_prev_failed[OF assms(1) 2(5)] show ?case by simp
  qed
  then show ?thesis by simp
qed

lemma relax_start:
  assumes "d s = Some 0" and "relax nf lf mn es (d, p) = (d1, p1)"
  shows "d1 s = Some 0 \<and> p1 s = p s"
proof -
  have "case relax nf lf mn es (d, p) of (d1, p1) \<Rightarrow> d1 s = Some 0 \<and> p1 s = p s"
    by (rule relax_rule[where I = "\<lambda>d1 p1. d1 s = Some 0 \<and> p1 s = p s"])
      (use assms(1) in \<open>auto simp: js_less_def\<close>)
  with assms(2) show ?thesis by simp
qed

lemma previous_start:
  assumes t: "shortestPathTables net s = Inr (d, p)"
  shows "\<forall>n. p s \<noteq> Some (Some n)"
proof -
  have "\<exists>q::vertex list. d s = Some 0 \<and> (\<forall>n. p s \<noteq> Some (Some n))"
  proof (rule shortestPathTables_rule[where I = "\<lambda>d p q. d s = Some 0 \<and> (\<forall>n. p s \<noteq> Some (Some n))", OF t],
      goal_cases)
    case (1 d p q)
    then show ?case by simp
  next
    case (2 d p q mn es d1 p1)
    then show ?case using relax_start[of d s nf lf mn es p d1 p1 for nf lf] by auto
  qed
  then show ?thesis by simp
qed

lemma walk_single:
  assumes "\<forall>n. p c \<noteq> Some (Some n)"
  shows "walk p (Some c) [] = Some (if c = [] then [] else [c])"
proof -
  from assms have "(case p c of None \<Rightarrow> None | Some n \<Rightarrow> n) = None"
    by (auto split: option.splits)
  then show ?thesis
    by (cases "c = []") (simp_all add: walk_empty walk_step walk_None)
qed

lemma findShortestPath_single:
  assumes "shortestPathTables net start = Inr (d, p)" and "\<forall>n. p end \<noteq> Some (Some n)"
  shows "findShortestPath net start end = Some (Inr None)"
  using walk_single[of p "end", OF assms(2)] by (simp add: findShortestPath_def assms(1))

subsection \<open>Vertices on the reconstructed path\<close>

lemma walk_members:
  assumes "walk p cur path = Some res"
  shows "set res \<subseteq> set path \<union> set_option cur \<union> {y. \<exists>x. p x = Some (Some y)}"
proof (rule walk.raw_induct[where P = "\<lambda>p cur path res.
    set res \<subseteq> set path \<union> set_option cur \<union> {y. \<exists>x. p x = Some (Some y)}", OF _ assms])
  fix walk' :: "previous \<Rightarrow> vertex option \<Rightarrow> vertex list \<Rightarrow> vertex list option"
    and p cur path res
  assume IH: "\<And>p cur path res. walk' p cur path = Some res \<Longrightarrow>
      set res \<subseteq> set path \<union> set_option cur \<union> {y. \<exists>x. p x = Some (Some y)}"
    and eq: "(case cur of None \<Rightarrow> Some path
              | Some c \<Rightarrow> if c = [] then Some path
                  else walk' p (case p c of None \<Rightarrow> None | Some n \<Rightarrow> n) (c # path)) = Some res"
  show "set res \<subseteq> set path \<union> set_option cur \<union> {y. \<exists>x. p x = Some (Some y)}"
  proof (cases cur)
    case None
    with eq show ?thesis by simp
  next
    case (Some c)
    show ?thesis
    proof (cases "c = []")
      case True
      with Some eq show ?thesis by auto
    next
      case False
      let ?n = "case p c of None \<Rightarrow> None | Some n \<Rightarrow> n"
      have "walk' p ?n (c # path) = Some res" using eq Some False by simp
      from IH[OF this]
      have "set res \<subseteq> set (c # path) \<union> set_option ?n \<union> {y. \<exists>x. p x = Some (Some y)}" .
      moreover have "set_option ?n \<subseteq> {y. \<exists>x. p x = Some (Some y)}"
        by (auto split: option.splits)
      ultimately show ?thesis using Some by auto
    qed
  qed
qed

lemma relax_reached:
  assumes "(\<forall>x y. p x = Some (Some y) \<longrightarrow> (\<exists>dy. d y = Some (enat dy)))
           \<and> (\<forall>x dx. d x = Some (enat dx) \<longrightarrow> x = start \<or> \<not> truthy (map_of nf x))"
    and "relax nf lf mn es (d, p) = (d1, p1)"
  shows "(\<forall>x y. p1 x = Some (Some y) \<longrightarrow> (\<exists>dy. d1 y = Some (enat dy)))
           \<and> (\<forall>x dx. d1 x = Some (enat dx) \<longrightarrow> x = start \<or> \<not> truthy (map_of nf x))"
proof -
  let ?I = "\<lambda>d p. (\<forall>x y. p x = Some (Some y) \<longrightarrow> (\<exists>dy. d y = Some (enat dy)))
           \<and> (\<forall>x dx. d x = Some (enat dx) \<longrightarrow> x = start \<or> \<not> truthy (map_of nf x))"
  have "case relax nf lf mn es (d, p) of (d1, p1) \<Rightarrow> ?I d1 p1"
  proof (rule relax_rule[where I = ?I], goal_cases)
    case 1
    show ?case using assms(1) .
  next
    case (2 d' p' e dm)
    from 2(6) obtain dx where "d' (vertex e) = Some dx" "dm + enat (cost e) < dx"
      by (auto simp: js_less_def split: option.splits)
    then obtain k where k: "dm = enat k" by (cases dm) auto
    show ?case
    proof (intro conjI allI impI)
      fix x y assume a: "(p'(vertex e \<mapsto> Some mn)) x = Some (Some y)"
      show "\<exists>dy. (d'(vertex e \<mapsto> dm + enat (cost e))) y = Some (enat dy)"
      proof (cases "y = vertex e")
        case True
        then show ?thesis using k by simp
      next
        case False
        show ?thesis
        proof (cases "x = vertex e")
          case True
          with a have "y = mn" by simp
          with False 2(5) k show ?thesis by simp
        next
          case xf: False
          with a 2(1) False show ?thesis by simp
        qed
      qed
    next
      fix x dx assume a: "(d'(vertex e \<mapsto> dm + enat (cost e))) x = Some (enat dx)"
      show "x = start \<or> \<not> truthy (map_of nf x)"
        using a 2(1,3) by (cases "x = vertex e") auto
    qed
  qed
  with assms(2) show ?thesis by simp
qed

text \<open>A vertex that is down and is not the source is on no path that findShortestPath
  returns.\<close>

lemma down_vertex_not_on_path:
  assumes "truthy (map_of (nodeFailures net) v)" and "v \<noteq> start"
    and "findShortestPath net start end = Some (Inr (Some path))"
  shows "v \<notin> set path"
proof -
  obtain d p where t: "shortestPathTables net start = Inr (d, p)"
    using shortestPathTables_returns by blast
  let ?I = "\<lambda>d p (q::vertex list). (\<forall>x y. p x = Some (Some y) \<longrightarrow> (\<exists>dy. d y = Some (enat dy)))
           \<and> (\<forall>x dx. d x = Some (enat dx) \<longrightarrow> x = start \<or> \<not> truthy (map_of (nodeFailures net) x))"
  have "\<exists>q. ?I d p q"
  proof (rule shortestPathTables_rule[where I = ?I, OF t], goal_cases)
    case (1 d p q)
    then show ?case by (auto split: if_splits)
  next
    case (2 d p q mn es d1 p1)
    from relax_reached[OF 2(1) 2(5)] show ?case .
  qed
  then have range: "\<forall>x. p x \<noteq> Some (Some v)" using assms(1,2) by blast
  have "v \<noteq> end"
  proof
    assume "v = end"
    with findShortestPath_single[OF t previous_down[OF assms(1) t]] assms(3) show False by simp
  qed
  from assms(3) have "walk p (Some end) [] = Some path"
    by (auto simp: findShortestPath_def t split: option.splits if_splits)
  from walk_members[OF this] range \<open>v \<noteq> end\<close> show ?thesis by auto
qed

subsection \<open>The graph operations\<close>

lemma map_of_push:
  "map_of (push g k e) = (map_of g)(k := map_option (\<lambda>es. es @ [e]) (map_of g k))"
  by (auto simp: push_def map_of_map_entry split: option.splits)

lemma keys_push: "map fst (push g k e) = map fst g"
  unfolding push_def by (induction g) auto

subsection \<open>The failure flags\<close>

lemma reset_loop_lookup:
  "map_of (reset_loop ks flags) k = (if k \<in> set ks then Some False else map_of flags k)"
  by (induction ks arbitrary: flags) (auto simp: update_conv')

lemma reset_loop_keys:
  "set ks \<subseteq> fst ` set flags \<Longrightarrow> map fst (reset_loop ks flags) = map fst flags"
proof (induction ks arbitrary: flags)
  case Nil
  then show ?case by simp
next
  case (Cons k ks)
  have same: "map fst (AList.update k False flags) = map fst flags"
    using Cons.prems by (simp add: update_keys)
  then have "set (map fst (AList.update k False flags)) = set (map fst flags)" by simp
  then have "set ks \<subseteq> fst ` set (AList.update k False flags)"
    using Cons.prems by simp
  from Cons.IH[OF this] same show ?case by simp
qed

lemma reset_loop_all:
  "map_of (reset_loop (map fst flags) flags) k = map_option (\<lambda>b. False) (map_of flags k)"
proof (cases "map_of flags k")
  case None
  then have "k \<notin> set (map fst flags)" by (simp add: map_of_eq_None_iff)
  with None show ?thesis by (simp add: reset_loop_lookup del: set_map)
next
  case (Some b)
  then have "k \<in> set (map fst flags)" by (auto dest: map_of_SomeD intro: rev_image_eqI)
  with Some show ?thesis by (simp add: reset_loop_lookup del: set_map)
qed

lemma visualizeNetwork_returns: "visualizeNetwork net = Some (Inr ())"
  using findShortestPath_returns[of net "''Router-1''" "''Router-20''"]
  by (auto simp: visualizeNetwork_def)

lemma check_loop_zero:
  "\<forall>x\<in>sset rs. 0 \<le> x \<Longrightarrow> check_loop 0 ks (flags, rs) = (flags, sdrop (length ks) rs)"
proof (induction ks arbitrary: rs)
  case Nil
  then show ?case by simp
next
  case (Cons k ks)
  have "0 \<le> shd rs" using Cons.prems by (simp add: shd_sset)
  moreover have "\<forall>x\<in>sset (stl rs). 0 \<le> x" using Cons.prems by (meson stl_sset)
  ultimately show ?case using Cons.IH[of "stl rs"] by (simp add: not_less)
qed

lemma checkNodeFailures_zero:
  assumes "nodeFailureProbability net = 0" and "\<forall>x\<in>sset (random net). 0 \<le> x"
  shows "checkNodeFailures net = net\<lparr>random := sdrop (length (nodeFailures net)) (random net)\<rparr>"
  using assms by (simp add: checkNodeFailures_def check_loop_zero)

lemma checkLinkFailures_zero:
  assumes "linkFailureProbability net = 0" and "\<forall>x\<in>sset (random net). 0 \<le> x"
  shows "checkLinkFailures net = net\<lparr>random := sdrop (length (linkFailures net)) (random net)\<rparr>"
  using assms by (simp add: checkLinkFailures_def check_loop_zero)

lemma sdrop_nonneg: "\<forall>x\<in>sset rs. (0::real) \<le> x \<Longrightarrow> \<forall>x\<in>sset (sdrop n rs). 0 \<le> x"
proof (induction n arbitrary: rs)
  case 0
  then show ?case by simp
next
  case (Suc n)
  have "\<forall>x\<in>sset (stl rs). 0 \<le> x" using Suc.prems by (meson stl_sset)
  from Suc.IH[OF this] show ?case by simp
qed

lemma simulationTick_zero:
  assumes "nodeFailureProbability net = 0" and "linkFailureProbability net = 0"
    and "\<forall>x\<in>sset (random net). 0 \<le> x"
  shows "\<exists>n. simulationTick net = Some (Inr (net\<lparr>random := sdrop n (random net)\<rparr>))"
proof (cases "isPaused net")
  case True
  then have "simulationTick net = Some (Inr (net\<lparr>random := sdrop 0 (random net)\<rparr>))"
    by (simp add: simulationTick_def)
  then show ?thesis ..
next
  case False
  let ?n1 = "net\<lparr>random := sdrop (length (nodeFailures net)) (random net)\<rparr>"
  have c1: "checkNodeFailures net = ?n1" using assms by (rule_tac checkNodeFailures_zero)
  have "checkLinkFailures ?n1 = ?n1\<lparr>random := sdrop (length (linkFailures ?n1)) (random ?n1)\<rparr>"
    by (rule checkLinkFailures_zero) (use assms sdrop_nonneg in auto)
  then have c2: "checkLinkFailures ?n1 = net\<lparr>random := sdrop (length (nodeFailures net) + length (linkFailures net)) (random net)\<rparr>"
    by (simp add: add.commute)
  obtain res where "findShortestPath (checkLinkFailures ?n1) ''Router-1'' ''Router-20'' = Some (Inr res)"
    using findShortestPath_returns by blast
  then have "simulationTick net = Some (Inr (checkLinkFailures ?n1))"
    using False c1 by (simp add: simulationTick_def Let_def visualizeNetwork_returns)
  with c2 show ?thesis by auto
qed

lemma ticks_zero:
  assumes "nodeFailureProbability net = 0" and "linkFailureProbability net = 0"
    and "\<forall>x\<in>sset (random net). 0 \<le> x"
  shows "\<exists>m. ticks n net = Some (Inr (net\<lparr>random := sdrop m (random net)\<rparr>))"
  using assms
proof (induction n arbitrary: net)
  case 0
  have "ticks 0 net = Some (Inr (net\<lparr>random := sdrop 0 (random net)\<rparr>))" by simp
  then show ?case ..
next
  case (Suc n)
  from simulationTick_zero[OF Suc.prems] obtain k
    where k: "simulationTick net = Some (Inr (net\<lparr>random := sdrop k (random net)\<rparr>))" ..
  let ?n1 = "net\<lparr>random := sdrop k (random net)\<rparr>"
  have "\<exists>m. ticks n ?n1 = Some (Inr (?n1\<lparr>random := sdrop m (random ?n1)\<rparr>))"
    by (rule Suc.IH) (use Suc.prems sdrop_nonneg in auto)
  then obtain m where "ticks n ?n1 = Some (Inr (?n1\<lparr>random := sdrop m (random ?n1)\<rparr>))" ..
  then have "ticks (Suc n) net = Some (Inr (net\<lparr>random := sdrop (k + m) (random net)\<rparr>))"
    using k by (simp add: add.commute)
  then show ?case ..
qed

lemmas scenario_defs =
  three_routers_def test_graph_def two_routers_def two_routers_linked_def constructed_def
  addEdge_def addVertex_def push_def hasOwnProperty_def getNeighbors_def
  findShortestPath_def shortestPathTables_def set_add_def while_loop.simps js_less_def
  truthy_def linkKey_def walk_None walk_empty walk_step Let_def

section \<open>The claims\<close>

text \<open>
  C1. The claim: the failure flag of a link is stored under a key that does not depend
  on the direction, so the path search skips a link that is down from either end.
  The code stores the flag under \<^verbatim>\<open>`${from}-${to}`\<close> and reads it under
  \<^verbatim>\<open>`${minNode}-${neighbor}`\<close>. After \<^verbatim>\<open>addEdgeWithFailure('a', 'b', 3)\<close> with a draw below
  the link failure probability the flag under a-b is true and there is none under b-a:
  the search from a to b finds no path, the search from b to a crosses the link.
\<close>

theorem link_flag_one_direction:
  "addEdgeWithFailure two_routers ''a'' ''b'' 3 = Inr two_routers_linked
   \<and> map_of (linkFailures two_routers_linked) (linkKey ''a'' ''b'') = Some True
   \<and> map_of (linkFailures two_routers_linked) (linkKey ''b'' ''a'') = None
   \<and> findShortestPath two_routers_linked ''a'' ''b'' = Some (Inr None)
   \<and> findShortestPath two_routers_linked ''b'' ''a'' = Some (Inr (Some [''b'', ''a'']))"
proof (intro conjI)
  show "addEdgeWithFailure two_routers ''a'' ''b'' 3 = Inr two_routers_linked"
    by (simp add: addEdgeWithFailure_def scenario_defs)
  show "map_of (linkFailures two_routers_linked) (linkKey ''a'' ''b'') = Some True"
    by (simp add: scenario_defs)
  show "map_of (linkFailures two_routers_linked) (linkKey ''b'' ''a'') = None"
    by (simp add: scenario_defs)
  show "findShortestPath two_routers_linked ''a'' ''b'' = Some (Inr None)"
    by (simp add: scenario_defs)
  show "findShortestPath two_routers_linked ''b'' ''a'' = Some (Inr (Some [''b'', ''a'']))"
    by (simp add: scenario_defs)
qed

text \<open>
  C2. On the graph with the vertices a, b, c and the edges a-b of cost 3, a-c of cost 2
  and b-c of cost 4, with every failure flag false, the path from a to c is [a, c] with
  distance 2 and the path from a to b is [a, b] with distance 3. Once the flag of the
  edge a-c is set, the path from a to c is [a, b, c] with distance 7.
\<close>

theorem three_routers_paths:
  "findShortestPath (three_routers net) ''a'' ''c'' = Some (Inr (Some [''a'', ''c'']))
   \<and> findShortestPath (three_routers net) ''a'' ''b'' = Some (Inr (Some [''a'', ''b'']))
   \<and> (case shortestPathTables (three_routers net) ''a'' of
         Inl e \<Rightarrow> False
       | Inr (distances, previous) \<Rightarrow> distances ''c'' = Some 2 \<and> distances ''b'' = Some 3)
   \<and> findShortestPath
         ((three_routers net)\<lparr>linkFailures :=
            AList.update (linkKey ''a'' ''c'') True (linkFailures (three_routers net))\<rparr>)
         ''a'' ''c'' = Some (Inr (Some [''a'', ''b'', ''c'']))
   \<and> (case shortestPathTables
         ((three_routers net)\<lparr>linkFailures :=
            AList.update (linkKey ''a'' ''c'') True (linkFailures (three_routers net))\<rparr>) ''a'' of
         Inl e \<Rightarrow> False
       | Inr (distances, previous) \<Rightarrow> distances ''c'' = Some 7)"
proof (intro conjI)
  show "findShortestPath (three_routers net) ''a'' ''c'' = Some (Inr (Some [''a'', ''c'']))"
    by (simp add: scenario_defs)
  show "findShortestPath (three_routers net) ''a'' ''b'' = Some (Inr (Some [''a'', ''b'']))"
    by (simp add: scenario_defs)
  show "case shortestPathTables (three_routers net) ''a'' of
          Inl e \<Rightarrow> False
        | Inr (distances, previous) \<Rightarrow> distances ''c'' = Some 2 \<and> distances ''b'' = Some 3"
    by (simp add: scenario_defs numeral_eq_enat)
  show "findShortestPath
          ((three_routers net)\<lparr>linkFailures :=
             AList.update (linkKey ''a'' ''c'') True (linkFailures (three_routers net))\<rparr>)
          ''a'' ''c'' = Some (Inr (Some [''a'', ''b'', ''c'']))"
    by (simp add: scenario_defs)
  show "case shortestPathTables
          ((three_routers net)\<lparr>linkFailures :=
             AList.update (linkKey ''a'' ''c'') True (linkFailures (three_routers net))\<rparr>) ''a'' of
          Inl e \<Rightarrow> False
        | Inr (distances, previous) \<Rightarrow> distances ''c'' = Some 7"
    by (simp add: scenario_defs numeral_eq_enat)
qed

text \<open>
  C3. The claim names \<^verbatim>\<open>addEdge\<close>; \<^verbatim>\<open>Graph.addEdge\<close> does not look for an existing edge
  and appends a second pair of entries.
\<close>

theorem addEdge_duplicate_counterexample:
  "getNeighbors (addEdge (addEdge (addVertex (addVertex [] ''a'') ''b'') ''a'' ''b'' 3) ''a'' ''b'' 5) ''a''
     = [\<lparr>vertex = ''b'', cost = 3\<rparr>, \<lparr>vertex = ''b'', cost = 5\<rparr>]
   \<and> addEdge (addEdge (addVertex (addVertex [] ''a'') ''b'') ''a'' ''b'' 3) ''a'' ''b'' 5
     \<noteq> addEdge (addVertex (addVertex [] ''a'') ''b'') ''a'' ''b'' 3"
  by (simp add: addEdge_def addVertex_def push_def hasOwnProperty_def getNeighbors_def)

text \<open>
  C3, as amended. The guard is in \<^verbatim>\<open>Network.addEdgeWithFailure\<close>: when u is a vertex and
  either u lists v or v lists u, \<^verbatim>\<open>addEdgeWithFailure(u, v, c2)\<close> returns with every field
  as it was. No adjacency entry is added, so a list that held one entry for the other
  end, with the cost of the first insertion, still holds exactly that entry; no flag is
  written and no random number is drawn.
\<close>

theorem addEdgeWithFailure_duplicate_noop:
  assumes "hasOwnProperty (networkGraph net) u"
    and "(\<exists>e\<in>set (getNeighbors (networkGraph net) u). vertex e = v)
         \<or> (\<exists>e\<in>set (getNeighbors (networkGraph net) v). vertex e = u)"
  shows "addEdgeWithFailure net u v c2 = Inr net"
  using assms
  by (auto simp: addEdgeWithFailure_def hasOwnProperty_def getNeighbors_def list_ex_iff
      split: option.splits)

text \<open>After a first insertion of a-b with cost 3, a second one with cost 5 changes
  nothing, in either direction.\<close>

theorem addEdgeWithFailure_duplicate_noop_witness:
  "addEdgeWithFailure two_routers ''a'' ''b'' 3 = Inr two_routers_linked
   \<and> hasOwnProperty (networkGraph two_routers_linked) ''a''
   \<and> hasOwnProperty (networkGraph two_routers_linked) ''b''
   \<and> (\<exists>e\<in>set (getNeighbors (networkGraph two_routers_linked) ''a''). vertex e = ''b'')
   \<and> addEdgeWithFailure two_routers_linked ''a'' ''b'' 5 = Inr two_routers_linked
   \<and> addEdgeWithFailure two_routers_linked ''b'' ''a'' 5 = Inr two_routers_linked
   \<and> getNeighbors (networkGraph two_routers_linked) ''a'' = [\<lparr>vertex = ''b'', cost = 3\<rparr>]
   \<and> getNeighbors (networkGraph two_routers_linked) ''b'' = [\<lparr>vertex = ''a'', cost = 3\<rparr>]"
proof -
  have first: "addEdgeWithFailure two_routers ''a'' ''b'' 3 = Inr two_routers_linked"
    by (simp add: addEdgeWithFailure_def scenario_defs)
  have a: "hasOwnProperty (networkGraph two_routers_linked) ''a''"
    and b: "hasOwnProperty (networkGraph two_routers_linked) ''b''"
    by (simp_all add: scenario_defs)
  have na: "getNeighbors (networkGraph two_routers_linked) ''a'' = [\<lparr>vertex = ''b'', cost = 3\<rparr>]"
    and nb: "getNeighbors (networkGraph two_routers_linked) ''b'' = [\<lparr>vertex = ''a'', cost = 3\<rparr>]"
    by (simp_all add: scenario_defs)
  have e: "\<exists>e\<in>set (getNeighbors (networkGraph two_routers_linked) ''a''). vertex e = ''b''"
    by (simp add: na)
  from e have ab: "(\<exists>e\<in>set (getNeighbors (networkGraph two_routers_linked) ''a''). vertex e = ''b'')
      \<or> (\<exists>e\<in>set (getNeighbors (networkGraph two_routers_linked) ''b''). vertex e = ''a'')" ..
  from e have ba: "(\<exists>e\<in>set (getNeighbors (networkGraph two_routers_linked) ''b''). vertex e = ''a'')
      \<or> (\<exists>e\<in>set (getNeighbors (networkGraph two_routers_linked) ''a''). vertex e = ''b'')" ..
  show ?thesis
    using first a b e na nb
      addEdgeWithFailure_duplicate_noop [OF a ab, of 5]
      addEdgeWithFailure_duplicate_noop [OF b ba, of 5]
    by simp
qed

text \<open>
  C4. The claim: \<^verbatim>\<open>addEdge(v, v, c)\<close> is rejected. No function of the program looks for a
  self-loop; on a graph with the single vertex a, \<^verbatim>\<open>addEdge('a', 'a', 1)\<close> changes the
  graph and a becomes its own neighbour.
\<close>

theorem addEdge_self_loop_counterexample:
  "hasOwnProperty (addVertex [] ''a'') ''a''
   \<and> addEdge (addVertex [] ''a'') ''a'' ''a'' 1 \<noteq> addVertex [] ''a''
   \<and> getNeighbors (addEdge (addVertex [] ''a'') ''a'' ''a'' 1) ''a''
       = [\<lparr>vertex = ''a'', cost = 1\<rparr>, \<lparr>vertex = ''a'', cost = 1\<rparr>]"
  by (simp add: addEdge_def addVertex_def push_def hasOwnProperty_def getNeighbors_def)

text \<open>
  C4, as amended. For a vertex v of the graph, \<^verbatim>\<open>addEdge(v, v, c)\<close> appends two entries
  for v with cost c to the adjacency list of v; the lists of the other vertices and the
  order of the vertices stay as they were.
\<close>

theorem addEdge_self_loop:
  assumes "hasOwnProperty g v"
  shows "getNeighbors (addEdge g v v c) v
           = getNeighbors g v @ [\<lparr>vertex = v, cost = c\<rparr>, \<lparr>vertex = v, cost = c\<rparr>]
         \<and> (\<forall>u. u \<noteq> v \<longrightarrow> getNeighbors (addEdge g v v c) u = getNeighbors g u)
         \<and> map fst (addEdge g v v c) = map fst g"
  using assms
  by (auto simp: addEdge_def getNeighbors_def map_of_push keys_push hasOwnProperty_def
      split: option.splits)

theorem addEdge_self_loop_witness:
  "hasOwnProperty test_graph ''a''
   \<and> getNeighbors (addEdge test_graph ''a'' ''a'' 9) ''a''
       = [\<lparr>vertex = ''b'', cost = 3\<rparr>, \<lparr>vertex = ''c'', cost = 2\<rparr>,
          \<lparr>vertex = ''a'', cost = 9\<rparr>, \<lparr>vertex = ''a'', cost = 9\<rparr>]
   \<and> getNeighbors (addEdge test_graph ''a'' ''a'' 9) ''b'' = getNeighbors test_graph ''b''"
proof -
  have h: "hasOwnProperty test_graph ''a''"
    by (simp add: test_graph_def addEdge_def addVertex_def push_def hasOwnProperty_def)
  have n: "getNeighbors test_graph ''a'' = [\<lparr>vertex = ''b'', cost = 3\<rparr>, \<lparr>vertex = ''c'', cost = 2\<rparr>]"
    by (simp add: test_graph_def addEdge_def addVertex_def push_def hasOwnProperty_def getNeighbors_def)
  show ?thesis using addEdge_self_loop [OF h, of 9] h n by simp
qed

text \<open>
  C5. Whenever the failure flag of the sink is true, findShortestPath returns null,
  whatever the topology, the other flags and the source are.
\<close>

theorem sink_down_no_path:
  assumes "truthy (map_of (nodeFailures net) end)"
  shows "findShortestPath net start end = Some (Inr None)"
proof -
  obtain d p where t: "shortestPathTables net start = Inr (d, p)"
    using shortestPathTables_returns by blast
  from findShortestPath_single[OF t previous_down[OF assms t]] show ?thesis .
qed

text \<open>The three routers with c down: the edge a-c is there, the path is not.\<close>

theorem sink_down_no_path_witness:
  "truthy (map_of (nodeFailures ((three_routers constructed)\<lparr>nodeFailures :=
       AList.update ''c'' True (nodeFailures (three_routers constructed))\<rparr>)) ''c'')
   \<and> findShortestPath ((three_routers constructed)\<lparr>nodeFailures :=
       AList.update ''c'' True (nodeFailures (three_routers constructed))\<rparr>) ''a'' ''c''
     = Some (Inr None)"
  using sink_down_no_path [of "(three_routers constructed)\<lparr>nodeFailures :=
       AList.update ''c'' True (nodeFailures (three_routers constructed))\<rparr>" "''c''" "''a''"]
  by (simp add: three_routers_def truthy_def)

text \<open>
  C6. The claim: a vertex that is down is on no path that findShortestPath returns, the
  source included, and a search that ends at it returns null. The code tests the flag
  of a neighbour before it relaxes it and never tests the flag of the source: on the
  three routers with a down, the search from a to c returns [a, c].
  (The rest of the claim holds: \<open>down_vertex_not_on_path\<close> and the theorem of C5.)
\<close>

theorem down_source_on_path:
  "truthy (map_of (nodeFailures ((three_routers constructed)\<lparr>nodeFailures :=
       AList.update ''a'' True (nodeFailures (three_routers constructed))\<rparr>)) ''a'')
   \<and> findShortestPath ((three_routers constructed)\<lparr>nodeFailures :=
       AList.update ''a'' True (nodeFailures (three_routers constructed))\<rparr>) ''a'' ''c''
     = Some (Inr (Some [''a'', ''c'']))"
  by (simp add: scenario_defs)

text \<open>
  C7. With both probabilities zero and whatever numbers \<^verbatim>\<open>Math.random()\<close> returns (none
  of them is negative), checkNodeFailures and checkLinkFailures change no flag, and any
  number of ticks of the simulation ends with the flags it started with.
\<close>

theorem zero_probability_no_toggle:
  assumes "nodeFailureProbability net = 0" and "linkFailureProbability net = 0"
    and "\<forall>x\<in>sset (random net). 0 \<le> x"
  shows "nodeFailures (checkNodeFailures net) = nodeFailures net
       \<and> linkFailures (checkNodeFailures net) = linkFailures net
       \<and> nodeFailures (checkLinkFailures net) = nodeFailures net
       \<and> linkFailures (checkLinkFailures net) = linkFailures net
       \<and> (\<exists>net'. ticks n net = Some (Inr net')
            \<and> nodeFailures net' = nodeFailures net \<and> linkFailures net' = linkFailures net)"
proof -
  from ticks_zero[OF assms, of n] obtain m
    where "ticks n net = Some (Inr (net\<lparr>random := sdrop m (random net)\<rparr>))" ..
  then show ?thesis
    using assms by (simp add: checkNodeFailures_zero checkLinkFailures_zero)
qed


theorem zero_probability_no_toggle_witness:
  "nodeFailureProbability quiet = 0 \<and> linkFailureProbability quiet = 0
   \<and> sset (random quiet) = {1 / 2}
   \<and> nodeFailures (checkNodeFailures quiet) = [(''a'', False), (''b'', True), (''c'', False)]
   \<and> linkFailures (checkLinkFailures quiet) = linkFailures quiet
   \<and> (\<exists>net'. ticks 3 quiet = Some (Inr net')
        \<and> nodeFailures net' = [(''a'', False), (''b'', True), (''c'', False)]
        \<and> linkFailures net' = linkFailures quiet)"
proof -
  have h: "nodeFailureProbability quiet = 0" "linkFailureProbability quiet = 0"
    "\<forall>x\<in>sset (random quiet). 0 \<le> x"
    by (simp_all add: quiet_def three_routers_def constructed_def)
  have n: "nodeFailures quiet = [(''a'', False), (''b'', True), (''c'', False)]"
    by (simp add: quiet_def)
  have r: "sset (random quiet) = {1 / 2}"
    by (simp add: quiet_def three_routers_def constructed_def)
  show ?thesis
    using h(1,2) r zero_probability_no_toggle [OF h, of 3] by (simp add: n)
qed

text \<open>
  C8. resetNetwork returns with every vertex flag and every edge flag false, the same
  keys in the same order, and with the random numbers, both probabilities, the graph
  and the pause state as they were.
\<close>

theorem resetNetwork_effect:
  "\<exists>net'. resetNetwork net = Some (Inr net')
     \<and> (\<forall>k. map_of (nodeFailures net') k = map_option (\<lambda>b. False) (map_of (nodeFailures net) k))
     \<and> (\<forall>k. map_of (linkFailures net') k = map_option (\<lambda>b. False) (map_of (linkFailures net) k))
     \<and> map fst (nodeFailures net') = map fst (nodeFailures net)
     \<and> map fst (linkFailures net') = map fst (linkFailures net)
     \<and> random net' = random net
     \<and> nodeFailureProbability net' = nodeFailureProbability net
     \<and> linkFailureProbability net' = linkFailureProbability net
     \<and> networkGraph net' = networkGraph net
     \<and> isPaused net' = isPaused net"
  by (simp add: resetNetwork_def Let_def visualizeNetwork_returns reset_loop_all reset_loop_keys)

text \<open>
  C9. When one of the two inputs is not a number or lies outside the interval from 0 to
  1, the handler leaves every field as it was; when both lie inside, it stores them as
  the two probabilities and leaves the flags, the graph and the random numbers as they
  were.
\<close>

theorem setProbabilities_effect:
  "((case a of None \<Rightarrow> True | Some n \<Rightarrow> n < 0 \<or> 1 < n)
      \<or> (case b of None \<Rightarrow> True | Some l \<Rightarrow> l < 0 \<or> 1 < l)
      \<longrightarrow> setProbabilities net a b = net)
   \<and> (0 \<le> x \<and> x \<le> 1 \<and> 0 \<le> y \<and> y \<le> 1 \<longrightarrow>
        nodeFailureProbability (setProbabilities net (Some x) (Some y)) = x
        \<and> linkFailureProbability (setProbabilities net (Some x) (Some y)) = y
        \<and> nodeFailures (setProbabilities net (Some x) (Some y)) = nodeFailures net
        \<and> linkFailures (setProbabilities net (Some x) (Some y)) = linkFailures net
        \<and> networkGraph (setProbabilities net (Some x) (Some y)) = networkGraph net
        \<and> random (setProbabilities net (Some x) (Some y)) = random net)"
  by (auto simp: setProbabilities_def js_ge_def js_le_def split: option.splits)

theorem setProbabilities_effect_witness:
  "setProbabilities (three_routers constructed) None (Some (1 / 2)) = three_routers constructed
   \<and> setProbabilities (three_routers constructed) (Some (3 / 2)) (Some (1 / 2)) = three_routers constructed
   \<and> setProbabilities (three_routers constructed) (Some (1 / 2)) (Some (- 1)) = three_routers constructed
   \<and> nodeFailureProbability (setProbabilities (three_routers constructed) (Some (3 / 10)) (Some 0)) = 3 / 10
   \<and> linkFailureProbability (setProbabilities (three_routers constructed) (Some (3 / 10)) (Some 0)) = 0
   \<and> nodeFailures (setProbabilities (three_routers constructed) (Some (3 / 10)) (Some 0))
       = [(''a'', False), (''b'', False), (''c'', False)]"
  using setProbabilities_effect [of None "Some (1 / 2)" "three_routers constructed" "3 / 10" 0]
    setProbabilities_effect [of "Some (3 / 2)" "Some (1 / 2)" "three_routers constructed" "3 / 10" 0]
    setProbabilities_effect [of "Some (1 / 2)" "Some (- 1)" "three_routers constructed" "3 / 10" 0]
  by (simp add: three_routers_def)

text \<open>
  C10. findShortestPath(s, s) returns null for every s: the predecessor of s is never
  written, the reconstructed sequence is [s] (or empty, for the empty string), and a
  sequence of length at most 1 is turned into null.
\<close>

theorem same_source_sink_no_path:
  "findShortestPath net s s = Some (Inr None)
   \<and> (case shortestPathTables net s of
         Inl e \<Rightarrow> False
       | Inr (distances, previous) \<Rightarrow>
           walk previous (Some s) [] = Some (if s = [] then [] else [s]))"
proof -
  obtain d p where t: "shortestPathTables net s = Inr (d, p)"
    using shortestPathTables_returns by blast
  from findShortestPath_single[OF t previous_start[OF t]]
    walk_single[of p s, OF previous_start[OF t]]
  show ?thesis by (simp add: t)
qed

end
